theory Spec2Isabelle
  imports Main "HOL-Library.Sublist" "HOL-Library.AList"
begin

section \<open>The command tree of yasper.py\<close>

text \<open>
  A shallow embedding of \<^verbatim>\<open>src/yasper.py\<close>. A Python string is the list of
  its characters. The tree only compares characters, so it is modelled over any type
  \<open>'a\<close> of characters, its strings being \<open>'a list\<close>; a one-character string
  \<^verbatim>\<open>s[0]\<close> is the singleton list \<open>[x]\<close>. Objects that the source mutates in
  place (nodes, the children list, the parser) are passed in and returned updated.
  \<^verbatim>\<open>None\<close> results are \<^const>\<open>None\<close>; Python exceptions are values of
  \<open>py_error\<close>. The recursive methods are recursive functions; the interpreter's
  bound on the recursion depth (which the source reaches only with commands about a
  thousand characters long) is not modelled.
\<close>

subsection \<open>YasperCommandTreeNode and YasperCommandTreeNodeChildren\<close>

text \<open>
  A node holds the fields \<^verbatim>\<open>c\<close>, \<^verbatim>\<open>children\<close>, \<^verbatim>\<open>terminal\<close> and
  \<^verbatim>\<open>maxdescendants\<close>. The wrapper class \<^verbatim>\<open>YasperCommandTreeNodeChildren\<close>
  only holds \<^verbatim>\<open>childrenlist\<close>, so the children are that list.
  \<^verbatim>\<open>maxdescendants\<close> is a count, never negative, hence a \<^typ>\<open>nat\<close>.
\<close>

datatype 'a YasperCommandTreeNode =
  Node (c: "'a list") (children: "'a YasperCommandTreeNode list") (terminal: bool) (maxdescendants: nat)

text \<open>\<^verbatim>\<open>YasperCommandTreeNode.__init__(c)\<close>\<close>

definition newNode :: "'a list \<Rightarrow> 'a YasperCommandTreeNode" where
  "newNode k = Node k [] False 0"

text \<open>\<^verbatim>\<open>YasperCommandTreeNodeChildren.getCharacters\<close>\<close>

definition getCharacters :: "'a YasperCommandTreeNode list \<Rightarrow> 'a list list" where
  "getCharacters childrenlist = map c childrenlist"

text \<open>\<^verbatim>\<open>YasperCommandTreeNodeChildren.getChild\<close>: the first child representing \<open>k\<close>.\<close>

fun getChild :: "'a YasperCommandTreeNode list \<Rightarrow> 'a list \<Rightarrow> 'a YasperCommandTreeNode option" where
  "getChild [] k = None"
| "getChild (child # rest) k = (if c child = k then Some child else getChild rest k)"

text \<open>
  \<^verbatim>\<open>YasperCommandTreeNodeChildren.addChild\<close>: appends a fresh node unless the
  character is already represented. The source returns the node; here the updated list
  is returned and the node is \<open>getChild\<close> of it.
\<close>

definition addChild :: "'a YasperCommandTreeNode list \<Rightarrow> 'a list \<Rightarrow> 'a YasperCommandTreeNode list" where
  "addChild childrenlist k =
     (if k \<in> set (getCharacters childrenlist) then childrenlist
      else childrenlist @ [newNode k])"

text \<open>
  In-place mutation of the node that \<open>getChild\<close> returns: the first child
  representing \<open>k\<close> is replaced by its updated version.
\<close>

fun updateChild :: "('a YasperCommandTreeNode \<Rightarrow> 'a YasperCommandTreeNode) \<Rightarrow> 'a list \<Rightarrow>
    'a YasperCommandTreeNode list \<Rightarrow> 'a YasperCommandTreeNode list" where
  "updateChild g k [] = []"
| "updateChild g k (child # rest) =
     (if c child = k then g child # rest else child # updateChild g k rest)"

text \<open>\<^verbatim>\<open>YasperCommandTreeNode.addCommand\<close>\<close>

fun addCommand :: "'a YasperCommandTreeNode \<Rightarrow> 'a list \<Rightarrow> 'a YasperCommandTreeNode" where
  "addCommand n [] = Node (c n) (children n) True (maxdescendants n)"
| "addCommand n (x # xs) =
     (let cs = (case getChild (children n) [x] of
                  None \<Rightarrow> addChild (children n) [x]
                | Some nextnode \<Rightarrow> children n)
      in Node (c n) (updateChild (\<lambda>nextnode. addCommand nextnode xs) [x] cs)
           (terminal n) (maxdescendants n))"

text \<open>\<^verbatim>\<open>YasperCommandTreeNode.updateMaxDescendants\<close>: the updated node; the
  returned integer is its \<open>maxdescendants\<close> field.\<close>

fun updateMaxDescendants :: "'a YasperCommandTreeNode \<Rightarrow> 'a YasperCommandTreeNode" where
  "updateMaxDescendants (Node k cs t m) =
     (let cs' = map updateMaxDescendants cs;
          maxofchildren = foldl (\<lambda>acc child. max acc (maxdescendants child)) 0 cs'
      in Node k cs' t (max (length cs') maxofchildren))"

text \<open>\<^verbatim>\<open>YasperCommandTreeNode.followTrail\<close>: \<^verbatim>\<open>len(self.children) == 1\<close> is the
  first pattern, every other length the second.\<close>

fun followTrail :: "'a YasperCommandTreeNode \<Rightarrow> 'a list option" where
  "followTrail (Node k [child] t m) =
     (if t then None
      else (case followTrail child of
              None \<Rightarrow> None
            | Some subtrail \<Rightarrow> Some (k @ subtrail)))"
| "followTrail (Node k cs t m) = Some k"

text \<open>\<^verbatim>\<open>YasperCommandTreeNode.searchCommand\<close>\<close>

fun searchCommand :: "'a YasperCommandTreeNode \<Rightarrow> 'a list \<Rightarrow> 'a list option" where
  "searchCommand n [] =
     (if terminal n then Some (c n)
      else if maxdescendants n = 1 then followTrail n
      else None)"
| "searchCommand n (x # xs) =
     (case getChild (children n) [x] of
        None \<Rightarrow> (if terminal n then Some (c n) else None)
      | Some nextnode \<Rightarrow>
          (case searchCommand nextnode xs of
             None \<Rightarrow> None
           | Some futuresearch \<Rightarrow> Some (c n @ futuresearch)))"

subsection \<open>YasperCommandTree\<close>

record 'a YasperCommandTree =
  root :: "'a YasperCommandTreeNode"

text \<open>\<^verbatim>\<open>YasperCommandTree.__init__\<close>\<close>

definition tree_new :: "'a YasperCommandTree" where
  "tree_new = \<lparr>root = newNode []\<rparr>"

text \<open>\<^verbatim>\<open>YasperCommandTree.initialize\<close>\<close>

definition tree_initialize :: "'a YasperCommandTree \<Rightarrow> 'a list list \<Rightarrow> 'a YasperCommandTree" where
  "tree_initialize tr commandlist =
     tr\<lparr>root := updateMaxDescendants (foldl addCommand (root tr) commandlist)\<rparr>"

text \<open>\<^verbatim>\<open>YasperCommandTree.getCommand\<close>\<close>

definition tree_getCommand :: "'a YasperCommandTree \<Rightarrow> 'a list \<Rightarrow> 'a list option" where
  "tree_getCommand tr s = searchCommand (root tr) s"

subsection \<open>Python strings and the builtins the parser calls\<close>

text \<open>
  Above the tree the parser upper-cases and splits strings and prints messages, so there
  the characters matter: a Python string is the list of its Unicode code points, the
  integers that \<^verbatim>\<open>ord\<close> returns.
\<close>

type_synonym pystr = "int list"

text \<open>A string literal of the source (ASCII text), as code points.\<close>

definition lit :: "string \<Rightarrow> pystr" where
  "lit l = map of_char l"

text \<open>
  \<^verbatim>\<open>str.upper\<close> replaces every code point that has an upper-case mapping in the
  Unicode character database by that mapping (one code point or several) and leaves the
  other code points as they are. The database is not part of the repository: the mapping
  is the parameter \<open>upcase\<close>, a partial map from code points, of every function that
  upper-cases.
\<close>

definition upper :: "(int \<rightharpoonup> int list) \<Rightarrow> pystr \<Rightarrow> pystr" where
  "upper upcase s = concat (map (\<lambda>n. case upcase n of None \<Rightarrow> [n] | Some r \<Rightarrow> r) s)"

text \<open>
  The restriction of the upper-case mapping to the ASCII code points: its only entries
  there are the letters \<^verbatim>\<open>a\<close> to \<^verbatim>\<open>z\<close> (97 to 122), mapped 32 down. The
  evaluations at concrete inputs below, all of ASCII text, are run with it.
\<close>

definition ascii_upcase :: "int \<rightharpoonup> int list" where
  "ascii_upcase n = (if 97 \<le> n \<and> n \<le> 122 then Some [n - 32] else None)"

text \<open>
  \<^verbatim>\<open>str.split()\<close> without arguments: the separators are the code points for which
  \<^verbatim>\<open>str.isspace\<close> holds (tab to carriage return, the separators 28 to 31, space,
  U+0085, U+00A0, U+1680, U+2000 to U+200A, U+2028, U+2029, U+202F, U+205F, U+3000); runs
  of them separate the words, and leading and trailing ones are dropped.
\<close>

definition isspace :: "int \<Rightarrow> bool" where
  "isspace n =
     (n \<in> {9, 10, 11, 12, 13, 28, 29, 30, 31, 32, 133, 160, 5760} \<or> (8192 \<le> n \<and> n \<le> 8202) \<or>
      n \<in> {8232, 8233, 8239, 8287, 12288})"

function split :: "pystr \<Rightarrow> pystr list" where
  "split [] = []"
| "split (x # xs) =
     (if isspace x then split xs
      else (x # takeWhile (\<lambda>ch. \<not> isspace ch) xs) # split (dropWhile (\<lambda>ch. \<not> isspace ch) xs))"
  by pat_completeness auto
termination
  by (relation "measure length") (auto simp: length_dropWhile_le le_imp_less_Suc)

text \<open>\<^verbatim>\<open>errorprint\<close>: the line written to the console.\<close>

definition errorprint :: "pystr \<Rightarrow> pystr" where
  "errorprint es = lit ''ERROR: '' @ es"

subsection \<open>Yasper\<close>

text \<open>
  Python exceptions the parser can raise: \<^verbatim>\<open>inputlist[0]\<close> on an empty list,
  \<^verbatim>\<open>self.fdict[s]\<close> on a missing key, \<^verbatim>\<open>self.ctree\<close> before
  \<^verbatim>\<open>initialize\<close> has created the attribute.
\<close>

datatype py_error = IndexError | KeyError | AttributeError

text \<open>\<^verbatim>\<open>YasperFunction\<close>: a handler and the number of arguments it expects.\<close>

datatype 'r YasperFunction = YasperFunction (f: "pystr list \<Rightarrow> 'r") (nargs: int)

text \<open>
  \<^verbatim>\<open>Yasper\<close>: \<^verbatim>\<open>fdict\<close> is a Python dict, kept as an association list in
  insertion order (the order of \<^verbatim>\<open>fdict.keys()\<close>); \<^verbatim>\<open>ctree\<close> does not exist
  until \<^verbatim>\<open>initialize\<close> runs.
\<close>

record 'r Yasper =
  fdict :: "(pystr \<times> 'r YasperFunction) list"
  ctree :: "int YasperCommandTree option"

text \<open>\<^verbatim>\<open>Yasper.__init__\<close>\<close>

definition yasper_new :: "'r Yasper" where
  "yasper_new = \<lparr>fdict = [], ctree = None\<rparr>"

text \<open>\<^verbatim>\<open>Yasper.registerFunction\<close>: \<^verbatim>\<open>self.fdict[s.upper()] = YasperFunction(f, nargs)\<close>.
  Assigning to an existing key keeps its position, a new key goes last.\<close>

definition yasper_registerFunction ::
    "(int \<rightharpoonup> int list) \<Rightarrow> 'r Yasper \<Rightarrow> pystr \<Rightarrow> (pystr list \<Rightarrow> 'r) \<Rightarrow> int \<Rightarrow> 'r Yasper" where
  "yasper_registerFunction upcase y s fn n =
     y\<lparr>fdict := AList.update (upper upcase s) (YasperFunction fn n) (fdict y)\<rparr>"

text \<open>\<^verbatim>\<open>Yasper.initialize\<close>\<close>

definition yasper_initialize :: "'r Yasper \<Rightarrow> 'r Yasper" where
  "yasper_initialize y =
     (let commands = map fst (fdict y)
      in y\<lparr>ctree := Some (tree_initialize tree_new commands)\<rparr>)"

text \<open>\<^verbatim>\<open>Yasper.getCommand\<close>\<close>

definition yasper_getCommand :: "'r Yasper \<Rightarrow> pystr \<Rightarrow> py_error + pystr option" where
  "yasper_getCommand y s =
     (case ctree y of None \<Rightarrow> Inl AttributeError | Some tr \<Rightarrow> Inr (tree_getCommand tr s))"

text \<open>
  \<^verbatim>\<open>Yasper.callFunction\<close> and \<^verbatim>\<open>Yasper.execute\<close> return the lines printed and the
  value returned (\<^const>\<open>None\<close> for Python's \<^verbatim>\<open>None\<close>), or the exception raised.
\<close>

definition yasper_callFunction ::
    "'r Yasper \<Rightarrow> pystr \<Rightarrow> pystr list \<Rightarrow> py_error + (pystr list \<times> 'r option)" where
  "yasper_callFunction y s data =
     (case map_of (fdict y) s of
        None \<Rightarrow> Inl KeyError
      | Some yf \<Rightarrow>
          (let expectednargs = nargs yf in
           if int (length data) \<ge> expectednargs
           then Inr ([], Some (f yf (if expectednargs \<ge> 0 then take (nat expectednargs) data else data)))
           else Inr ([errorprint (lit ''Too few arguments for command '' @ s)], None)))"

definition yasper_execute ::
    "(int \<rightharpoonup> int list) \<Rightarrow> 'r Yasper \<Rightarrow> pystr \<Rightarrow> py_error + (pystr list \<times> 'r option)" where
  "yasper_execute upcase y inputstring =
     (if inputstring = [] then Inr ([], None)
      else (case split inputstring of
              [] \<Rightarrow> Inl IndexError
            | tok # args \<Rightarrow>
                (case yasper_getCommand y (upper upcase tok) of
                   Inl e \<Rightarrow> Inl e
                 | Inr None \<Rightarrow> Inr ([errorprint (lit ''Invalid or ambiguous command'')], None)
                 | Inr (Some command) \<Rightarrow> yasper_callFunction y command args)))"

subsection \<open>The parser of driver.py\<close>

text \<open>
  \<^verbatim>\<open>src/driver.py\<close> registers four commands and initializes the parser. The handler
  bodies do not matter for command resolution and are parameters.
\<close>

definition driver ::
    "(int \<rightharpoonup> int list) \<Rightarrow> (pystr list \<Rightarrow> 'r) \<Rightarrow> (pystr list \<Rightarrow> 'r) \<Rightarrow> (pystr list \<Rightarrow> 'r) \<Rightarrow>
     (pystr list \<Rightarrow> 'r) \<Rightarrow> 'r Yasper" where
  "driver upcase add addn subtract encourage =
     yasper_initialize
       (yasper_registerFunction upcase
         (yasper_registerFunction upcase
           (yasper_registerFunction upcase
             (yasper_registerFunction upcase yasper_new (lit ''add'') add (- 1))
             (lit ''addn'') addn (- 1))
           (lit ''subtract'') subtract 2)
         (lit ''encourage'') encourage 0)"

section \<open>Notions used in the proofs\<close>

text \<open>
  The node that the walk of \<open>searchCommand\<close> reaches after consuming \<open>s\<close>: each step
  takes \<open>getChild\<close> for the next character, as \<open>searchCommand\<close> and
  \<open>addCommand\<close> do.
\<close>

fun descend :: "'a YasperCommandTreeNode \<Rightarrow> 'a list \<Rightarrow> 'a YasperCommandTreeNode option" where
  "descend n [] = Some n"
| "descend n (x # xs) =
     (case getChild (children n) [x] of None \<Rightarrow> None | Some child \<Rightarrow> descend child xs)"

text \<open>
  Every node below the root represents one character, and every childless node below
  the root is terminal.
\<close>

fun wf_node :: "'a YasperCommandTreeNode \<Rightarrow> bool" where
  "wf_node (Node k cs t m) =
     (\<forall>ch \<in> set cs. (\<exists>x. c ch = [x]) \<and> (children ch = [] \<longrightarrow> terminal ch) \<and> wf_node ch)"

text \<open>A chain: no node of the subtree has more than one child.\<close>

fun chain :: "'a YasperCommandTreeNode \<Rightarrow> bool" where
  "chain (Node k cs t m) = (length cs \<le> 1 \<and> (\<forall>ch \<in> set cs. chain ch))"

text \<open>The root of a fresh tree after the insertions, before \<open>updateMaxDescendants\<close>.\<close>

definition built :: "'a list list \<Rightarrow> 'a YasperCommandTreeNode" where
  "built cs = foldl addCommand (newNode []) cs"

section \<open>Properties of the tree operations\<close>

subsection \<open>Children lists and insertion\<close>

lemma getChild_Some_c: "getChild cs k = Some ch \<Longrightarrow> c ch = k"
  by (induction cs) (auto split: if_splits)

lemma getChild_Some_mem: "getChild cs k = Some ch \<Longrightarrow> ch \<in> set cs"
  by (induction cs) (auto split: if_splits)

lemma getChild_None_iff: "getChild cs k = None \<longleftrightarrow> k \<notin> set (getCharacters cs)"
  by (induction cs) (auto simp: getCharacters_def)

lemma getChild_append:
  "getChild (cs @ ds) k = (case getChild cs k of None \<Rightarrow> getChild ds k | Some ch \<Rightarrow> Some ch)"
  by (induction cs) auto

lemma getChild_updateChild:
  "(\<And>z. c (g z) = c z) \<Longrightarrow>
   getChild (updateChild g k cs) k' = (if k' = k then map_option g (getChild cs k) else getChild cs k')"
  by (induction cs) auto

lemma c_addCommand [simp]: "c (addCommand n s) = c n"
  by (cases s) (simp_all add: Let_def)

lemma terminal_addCommand [simp]: "terminal (addCommand n s) = (s = [] \<or> terminal n)"
  by (cases s) (simp_all add: Let_def)

lemma getChild_addChild:
  "getChild (addChild cs k) k' =
     (case getChild cs k' of None \<Rightarrow> (if k' = k then Some (newNode k) else None) | Some ch \<Rightarrow> Some ch)"
  using getChild_None_iff[of cs k]
  by (auto simp: addChild_def getChild_append newNode_def split: option.splits)

lemma getChild_addCommand:
  "getChild (children (addCommand n (x # xs))) k =
     (if k = [x]
      then Some (addCommand (case getChild (children n) [x] of None \<Rightarrow> newNode [x] | Some ch \<Rightarrow> ch) xs)
      else getChild (children n) k)"
  by (auto simp: Let_def getChild_updateChild getChild_addChild split: option.splits)

declare addCommand.simps(2) [simp del]

lemma descend_newNode: "descend (newNode k) s = (if s = [] then Some (newNode k) else None)"
  by (cases s) (simp_all add: newNode_def)

lemma descend_addCommand:
  "descend (addCommand n t) s =
     (if prefix s t
      then Some (addCommand (case descend n s of None \<Rightarrow> newNode [last s] | Some m \<Rightarrow> m)
                   (drop (length s) t))
      else descend n s)"
proof (induction s arbitrary: n t)
  case Nil
  show ?case by simp
next
  case (Cons x xs)
  note IH = Cons.IH
  show ?case
  proof (cases t)
    case Nil
    then show ?thesis by simp
  next
    case tcons: (Cons y ys)
    show ?thesis
    proof (cases "x = y")
      case False
      then show ?thesis using tcons by (simp add: getChild_addCommand)
    next
      case True
      then show ?thesis
        using tcons IH
        by (auto simp: getChild_addCommand descend_newNode split: option.splits)
    qed
  qed
qed

lemma updateChild_append:
  "updateChild g k (cs @ ds) =
     (if getChild cs k = None then cs @ updateChild g k ds else updateChild g k cs @ ds)"
  by (induction cs) auto

lemma set_updateChild_found:
  "getChild cs k = Some ch \<Longrightarrow> set (updateChild g k cs) \<subseteq> insert (g ch) (set cs)"
  by (induction cs) (auto split: if_splits)

lemma children_addCommand_Cons:
  "children (addCommand n (x # xs)) =
     (case getChild (children n) [x] of
        None \<Rightarrow> children n @ [addCommand (newNode [x]) xs]
      | Some ch \<Rightarrow> updateChild (\<lambda>z. addCommand z xs) [x] (children n))"
proof (cases "getChild (children n) [x]")
  case None
  then have "[x] \<notin> set (getCharacters (children n))" by (simp add: getChild_None_iff)
  with None show ?thesis
    by (simp add: addCommand.simps(2) addChild_def updateChild_append newNode_def)
next
  case (Some ch)
  then show ?thesis by (simp add: addCommand.simps(2))
qed

lemma children_addCommand_Nil: "children (addCommand n s) = [] \<longleftrightarrow> s = [] \<and> children n = []"
proof (cases s)
  case Nil
  then show ?thesis by simp
next
  case (Cons x xs)
  have "getChild (children (addCommand n (x # xs))) [x] \<noteq> None"
    by (simp add: getChild_addCommand)
  then have "children (addCommand n (x # xs)) \<noteq> []" by auto
  then show ?thesis using Cons by simp
qed

lemma wf_node_iff:
  "wf_node n \<longleftrightarrow>
     (\<forall>ch \<in> set (children n). (\<exists>x. c ch = [x]) \<and> (children ch = [] \<longrightarrow> terminal ch) \<and> wf_node ch)"
  by (cases n) simp

lemma wf_newNode: "wf_node (newNode k)"
  by (simp add: newNode_def)

lemma wf_addCommand: "wf_node n \<Longrightarrow> wf_node (addCommand n s)"
proof (induction s arbitrary: n)
  case Nil
  then show ?case by (cases n) simp
next
  case (Cons x xs)
  let ?g = "\<lambda>z. addCommand z xs"
  have good: "(\<exists>y. c (?g z) = [y]) \<and> (children (?g z) = [] \<longrightarrow> terminal (?g z)) \<and> wf_node (?g z)"
    if "c z = [x]" "wf_node z" for z
    using that Cons.IH[of z] by (auto simp: children_addCommand_Nil)
  have old: "(\<exists>y. c ch = [y]) \<and> (children ch = [] \<longrightarrow> terminal ch) \<and> wf_node ch"
    if "ch \<in> set (children n)" for ch
    using that Cons.prems wf_node_iff[of n] by blast
  show ?case
  proof (cases "getChild (children n) [x]")
    case None
    have "c (newNode [x]) = [x]" "wf_node (newNode [x])" by (simp_all add: newNode_def)
    from good[OF this] old None show ?thesis
      by (subst wf_node_iff) (auto simp: children_addCommand_Cons)
  next
    case (Some ch)
    have "c ch = [x]" "wf_node ch"
      using Some old getChild_Some_c getChild_Some_mem by blast+
    from good[OF this] old set_updateChild_found[OF Some, of ?g] Some show ?thesis
      by (subst wf_node_iff) (auto simp: children_addCommand_Cons)
  qed
qed

lemma wf_foldl_addCommand: "wf_node n \<Longrightarrow> wf_node (foldl addCommand n cs)"
  by (induction cs arbitrary: n) (simp_all add: wf_addCommand)

subsection \<open>updateMaxDescendants\<close>

lemma uMD_sel [simp]:
  "c (updateMaxDescendants n) = c n"
  "terminal (updateMaxDescendants n) = terminal n"
  "children (updateMaxDescendants n) = map updateMaxDescendants (children n)"
  by (cases n; simp add: Let_def)+

lemma foldl_max_ge_init: "a \<le> foldl (\<lambda>acc x. max acc (h x)) (a::nat) xs"
proof (induction xs arbitrary: a)
  case Nil
  show ?case by simp
next
  case (Cons x xs)
  have "a \<le> max a (h x)" by simp
  also have "\<dots> \<le> foldl (\<lambda>acc x. max acc (h x)) (max a (h x)) xs" by (rule Cons.IH)
  finally show ?case by simp
qed

lemma foldl_max_ge_elem: "x \<in> set xs \<Longrightarrow> h x \<le> foldl (\<lambda>acc x. max acc (h x)) (a::nat) xs"
proof (induction xs arbitrary: a)
  case Nil
  then show ?case by simp
next
  case (Cons y ys)
  show ?case
  proof (cases "x = y")
    case True
    have "h y \<le> max a (h y)" by simp
    also have "\<dots> \<le> foldl (\<lambda>acc x. max acc (h x)) (max a (h y)) ys" by (rule foldl_max_ge_init)
    finally show ?thesis using True by simp
  next
    case False
    then show ?thesis using Cons by simp
  qed
qed

lemma uMD_maxdescendants:
  "maxdescendants (updateMaxDescendants n) =
     max (length (children n))
       (foldl (\<lambda>acc child. max acc (maxdescendants child)) 0 (map updateMaxDescendants (children n)))"
  by (cases n) (simp add: Let_def)

declare updateMaxDescendants.simps [simp del]

lemma uMD_length_le: "length (children n) \<le> maxdescendants (updateMaxDescendants n)"
  by (simp add: uMD_maxdescendants)

lemma uMD_child_le:
  "ch \<in> set (children n) \<Longrightarrow>
   maxdescendants (updateMaxDescendants ch) \<le> maxdescendants (updateMaxDescendants n)"
proof -
  assume "ch \<in> set (children n)"
  then have "updateMaxDescendants ch \<in> set (map updateMaxDescendants (children n))" by simp
  then have "maxdescendants (updateMaxDescendants ch) \<le>
      foldl (\<lambda>acc child. max acc (maxdescendants child)) 0 (map updateMaxDescendants (children n))"
    by (rule foldl_max_ge_elem)
  then show ?thesis by (subst (2) uMD_maxdescendants) simp
qed

lemma uMD_leaf: "children n = [] \<Longrightarrow> maxdescendants (updateMaxDescendants n) = 0"
  by (simp add: uMD_maxdescendants)

lemma getChild_map_uMD:
  "getChild (map updateMaxDescendants cs) k = map_option updateMaxDescendants (getChild cs k)"
  by (induction cs) auto

lemma descend_uMD:
  "descend (updateMaxDescendants n) s = map_option updateMaxDescendants (descend n s)"
  by (induction s arbitrary: n) (auto simp: getChild_map_uMD split: option.splits)

lemma wf_uMD: "wf_node n \<Longrightarrow> wf_node (updateMaxDescendants n)"
proof (induction n)
  case (Node k cs t m)
  then show ?case by (subst wf_node_iff) auto
qed

lemma chain_iff: "chain n \<longleftrightarrow> length (children n) \<le> 1 \<and> (\<forall>ch \<in> set (children n). chain ch)"
  by (cases n) simp

lemma chain_uMD: "maxdescendants (updateMaxDescendants n) \<le> 1 \<Longrightarrow> chain (updateMaxDescendants n)"
proof (induction n)
  case (Node k cs t m)
  have len: "length cs \<le> 1"
    using Node.prems uMD_length_le[of "Node k cs t m"] by simp
  have "chain (updateMaxDescendants ch)" if "ch \<in> set cs" for ch
  proof -
    have "maxdescendants (updateMaxDescendants ch) \<le> 1"
      using uMD_child_le[of ch "Node k cs t m"] that Node.prems by simp
    then show ?thesis using Node.IH that by simp
  qed
  with len show ?case by (subst chain_iff) auto
qed

subsection \<open>Walking the tree\<close>

lemma descend_append:
  "descend n (s @ r) = (case descend n s of None \<Rightarrow> None | Some m \<Rightarrow> descend m r)"
  by (induction s arbitrary: n) (auto split: option.splits)

lemma wf_descend: "wf_node n \<Longrightarrow> descend n s = Some m \<Longrightarrow> wf_node m"
proof (induction s arbitrary: n)
  case Nil
  then show ?case by simp
next
  case (Cons x xs)
  then obtain ch where ch: "getChild (children n) [x] = Some ch" "descend ch xs = Some m"
    by (auto split: option.splits)
  then have "wf_node ch"
    using Cons.prems(1) getChild_Some_mem wf_node_iff[of n] by blast
  then show ?case using Cons.IH ch by blast
qed

lemma chain_getChild:
  assumes "chain n" "getChild (children n) k = Some ch"
  shows "children n = [ch]" "chain ch"
proof -
  from assms(2) have mem: "ch \<in> set (children n)" by (rule getChild_Some_mem)
  from assms(1) have "length (children n) \<le> 1" "\<forall>z \<in> set (children n). chain z"
    using chain_iff by blast+
  with mem show "children n = [ch]" "chain ch"
    by (cases "children n"; auto)+
qed

lemma chain_paths_comparable:
  "chain n \<Longrightarrow> descend n u \<noteq> None \<Longrightarrow> descend n v \<noteq> None \<Longrightarrow> prefix u v \<or> prefix v u"
proof (induction u arbitrary: n v)
  case Nil
  then show ?case by simp
next
  case (Cons x xs)
  show ?case
  proof (cases v)
    case Nil
    then show ?thesis by simp
  next
    case vc: (Cons y ys)
    from Cons.prems(2) obtain ch where ch: "getChild (children n) [x] = Some ch" "descend ch xs \<noteq> None"
      by (auto split: option.splits)
    from Cons.prems(3) vc obtain ch' where ch': "getChild (children n) [y] = Some ch'" "descend ch' ys \<noteq> None"
      by (auto split: option.splits)
    have "children n = [ch]" "children n = [ch']" "chain ch"
      using chain_getChild[OF Cons.prems(1)] ch(1) ch'(1) by blast+
    then have same: "ch' = ch" by simp
    have "c ch = [x]" "c ch' = [y]" using ch(1) ch'(1) getChild_Some_c by blast+
    with same have "x = y" by simp
    moreover have "prefix xs ys \<or> prefix ys xs"
      using Cons.IH[OF \<open>chain ch\<close> ch(2)] ch'(2) same by simp
    ultimately show ?thesis using vc by simp
  qed
qed

subsection \<open>followTrail\<close>

lemma followTrail_single:
  "children n = [ch] \<Longrightarrow>
   followTrail n =
     (if terminal n then None
      else (case followTrail ch of None \<Rightarrow> None | Some subtrail \<Rightarrow> Some (c n @ subtrail)))"
  by (cases n) (simp split: option.split)

lemma followTrail_leaf: "children n = [] \<Longrightarrow> followTrail n = Some (c n)"
  by (cases n) simp

lemma followTrail_sound:
  "wf_node n \<Longrightarrow> chain n \<Longrightarrow> (children n = [] \<longrightarrow> terminal n) \<Longrightarrow> followTrail n = Some y \<Longrightarrow>
   \<exists>u m. y = c n @ u \<and> descend n u = Some m \<and> terminal m"
proof (induction n arbitrary: y)
  case (Node k cs t mx)
  show ?case
  proof (cases cs)
    case Nil
    then show ?thesis using Node.prems by auto
  next
    case (Cons ch rest)
    with Node.prems(2) have cs: "cs = [ch]" by simp
    from Node.prems(1) cs obtain x where ch: "c ch = [x]" "children ch = [] \<longrightarrow> terminal ch" "wf_node ch"
      by auto
    from Node.prems(2) cs have chn: "chain ch" by simp
    from Node.prems(4) cs obtain sub where sub: "\<not> t" "followTrail ch = Some sub" "y = k @ sub"
      by (auto split: if_splits option.splits)
    from Node.IH[of ch sub] cs ch chn sub obtain u m where
      u: "sub = c ch @ u" "descend ch u = Some m" "terminal m" by auto
    have "y = c (Node k cs t mx) @ (x # u)" using sub u ch by simp
    moreover have "descend (Node k cs t mx) (x # u) = Some m" using cs ch u by simp
    ultimately show ?thesis using u(3) by blast
  qed
qed

lemma followTrail_complete:
  "chain n \<Longrightarrow> descend n u = Some m \<Longrightarrow> children m = [] \<Longrightarrow>
   (\<And>v m'. strict_prefix v u \<Longrightarrow> descend n v = Some m' \<Longrightarrow> \<not> terminal m') \<Longrightarrow>
   followTrail n = Some (c n @ u)"
proof (induction u arbitrary: n)
  case Nil
  then show ?case by (simp add: followTrail_leaf)
next
  case (Cons x xs)
  from Cons.prems(2) obtain ch where ch: "getChild (children n) [x] = Some ch" "descend ch xs = Some m"
    by (auto split: option.splits)
  have one: "children n = [ch]" and chn: "chain ch"
    using chain_getChild[OF Cons.prems(1) ch(1)] by blast+
  have nt: "\<not> terminal n" using Cons.prems(4)[of "[]" n] by simp
  have inner: "\<not> terminal m'" if "strict_prefix v xs" "descend ch v = Some m'" for v m'
    using Cons.prems(4)[of "x # v" m'] that ch(1) by simp
  have "followTrail ch = Some (c ch @ xs)"
    using Cons.IH[OF chn ch(2) Cons.prems(3)] inner by blast
  moreover have "c ch = [x]" using ch(1) by (rule getChild_Some_c)
  ultimately show ?case using one nt by (simp add: followTrail_single)
qed

lemma followTrail_ambiguous:
  "chain n \<Longrightarrow> descend n u = Some m \<Longrightarrow> terminal m \<Longrightarrow> children m \<noteq> [] \<Longrightarrow> followTrail n = None"
proof (induction u arbitrary: n)
  case Nil
  then have "m = n" by simp
  with Nil obtain ch where "children n = [ch]"
    using chain_iff[of n] by (cases "children n") auto
  then show ?case using Nil \<open>m = n\<close> by (simp add: followTrail_single)
next
  case (Cons x xs)
  from Cons.prems(2) obtain ch where ch: "getChild (children n) [x] = Some ch" "descend ch xs = Some m"
    by (auto split: option.splits)
  have one: "children n = [ch]" and chn: "chain ch"
    using chain_getChild[OF Cons.prems(1) ch(1)] by blast+
  have "followTrail ch = None" using Cons.IH[OF chn ch(2) Cons.prems(3,4)] .
  then show ?case using one by (simp add: followTrail_single)
qed

subsection \<open>searchCommand\<close>

lemma searchCommand_descend_None:
  "descend n s = Some m \<Longrightarrow> searchCommand m r = None \<Longrightarrow> searchCommand n (s @ r) = None"
  by (induction s arbitrary: n) (auto split: option.splits)

lemma searchCommand_descend_Some:
  "descend n s = Some m \<Longrightarrow> searchCommand m r = Some (c m @ z) \<Longrightarrow>
   searchCommand n (s @ r) = Some (c n @ s @ z)"
proof (induction s arbitrary: n)
  case Nil
  then show ?case by simp
next
  case (Cons x xs)
  from Cons.prems(1) obtain ch where ch: "getChild (children n) [x] = Some ch" "descend ch xs = Some m"
    by (auto split: option.splits)
  have "searchCommand ch (xs @ r) = Some (c ch @ xs @ z)"
    using Cons.IH[OF ch(2) Cons.prems(2)] .
  moreover have "c ch = [x]" using ch(1) by (rule getChild_Some_c)
  ultimately show ?case using ch(1) by simp
qed

text \<open>Exact match, overcompletion and divergence at the node the walk reaches.\<close>

lemma searchCommand_exact:
  "descend n s = Some m \<Longrightarrow> terminal m \<Longrightarrow> searchCommand n s = Some (c n @ s)"
  using searchCommand_descend_Some[of n s m "[]" "[]"] by simp

lemma searchCommand_over:
  "descend n s = Some m \<Longrightarrow> terminal m \<Longrightarrow> getChild (children m) [x] = None \<Longrightarrow>
   searchCommand n (s @ x # r) = Some (c n @ s)"
  using searchCommand_descend_Some[of n s m "x # r" "[]"] by simp

lemma searchCommand_diverge:
  "descend n s = Some m \<Longrightarrow> \<not> terminal m \<Longrightarrow> getChild (children m) [x] = None \<Longrightarrow>
   searchCommand n (s @ x # r) = None"
  using searchCommand_descend_None[of n s m "x # r"] by simp

lemma searchCommand_uMD_sound:
  "wf_node n \<Longrightarrow> searchCommand (updateMaxDescendants n) q = Some y \<Longrightarrow>
   \<exists>u m. y = c n @ u \<and> descend n u = Some m \<and> terminal m"
proof (induction q arbitrary: n y)
  case Nil
  show ?case
  proof (cases "terminal n")
    case True
    then have "y = c n @ []" "descend n [] = Some n" using Nil.prems(2) by simp_all
    with True show ?thesis by blast
  next
    case False
    let ?n' = "updateMaxDescendants n"
    from False Nil.prems(2) have md: "maxdescendants ?n' = 1" and ft: "followTrail ?n' = Some y"
      by (auto split: if_splits)
    have "chain ?n'" using md chain_uMD[of n] by simp
    moreover have "children ?n' \<noteq> []" using md uMD_leaf[of n] by auto
    moreover have "wf_node ?n'" using Nil.prems(1) by (rule wf_uMD)
    ultimately obtain u m' where u: "y = c ?n' @ u" "descend ?n' u = Some m'" "terminal m'"
      using followTrail_sound[OF _ _ _ ft] by blast
    from u(2) obtain m where "descend n u = Some m" "m' = updateMaxDescendants m"
      by (auto simp: descend_uMD)
    with u show ?thesis by auto
  qed
next
  case (Cons x xs)
  show ?case
  proof (cases "getChild (children n) [x]")
    case None
    then have "terminal n" "y = c n @ []" "descend n [] = Some n"
      using Cons.prems(2) by (auto simp: getChild_map_uMD split: if_splits)
    then show ?thesis by blast
  next
    case (Some ch)
    then obtain y' where y': "searchCommand (updateMaxDescendants ch) xs = Some y'" "y = c n @ y'"
      using Cons.prems(2) by (auto simp: getChild_map_uMD split: option.splits)
    have "wf_node ch" using Some Cons.prems(1) getChild_Some_mem wf_node_iff[of n] by blast
    from Cons.IH[OF this y'(1)] obtain u m where
      u: "y' = c ch @ u" "descend ch u = Some m" "terminal m" by blast
    have "c ch = [x]" using Some by (rule getChild_Some_c)
    then have "y = c n @ (x # u)" "descend n (x # u) = Some m" using y'(2) u Some by simp_all
    with u(3) show ?thesis by blast
  qed
qed

subsection \<open>The tree built from a command list\<close>

lemma terminal_at_addCommand:
  "(\<exists>m. descend (addCommand n t) s = Some m \<and> terminal m) \<longleftrightarrow>
   s = t \<or> (\<exists>m. descend n s = Some m \<and> terminal m)"
proof (cases "prefix s t")
  case True
  then obtain r where r: "t = s @ r" by (auto simp: prefix_def)
  then show ?thesis
    by (cases "descend n s") (auto simp: descend_addCommand newNode_def)
next
  case False
  then have "s \<noteq> t" by auto
  with False show ?thesis by (simp add: descend_addCommand)
qed

lemma path_addCommand:
  "descend (addCommand n t) s \<noteq> None \<longleftrightarrow> prefix s t \<or> descend n s \<noteq> None"
  by (simp add: descend_addCommand)

lemma terminal_at_foldl:
  "(\<exists>m. descend (foldl addCommand n cs) s = Some m \<and> terminal m) \<longleftrightarrow>
   s \<in> set cs \<or> (\<exists>m. descend n s = Some m \<and> terminal m)"
proof (induction cs arbitrary: n)
  case Nil
  show ?case by simp
next
  case (Cons t ts)
  show ?case using Cons.IH[of "addCommand n t"] terminal_at_addCommand[of n t s] by auto
qed

lemma path_foldl:
  "descend (foldl addCommand n cs) s \<noteq> None \<longleftrightarrow>
   (\<exists>t \<in> set cs. prefix s t) \<or> descend n s \<noteq> None"
proof (induction cs arbitrary: n)
  case Nil
  show ?case by simp
next
  case (Cons t ts)
  show ?case using Cons.IH[of "addCommand n t"] path_addCommand[of n t s] by auto
qed

lemma c_foldl_addCommand [simp]: "c (foldl addCommand n cs) = c n"
  by (induction cs arbitrary: n) simp_all

lemma root_initialize: "root (tree_initialize tree_new cs) = updateMaxDescendants (built cs)"
  by (simp add: tree_initialize_def tree_new_def built_def)

lemma c_built [simp]: "c (built cs) = []"
  by (simp add: built_def newNode_def)

lemma wf_built: "wf_node (built cs)"
  by (simp add: built_def wf_foldl_addCommand wf_newNode)

lemma newNode_not_terminal_at: "\<not> (\<exists>m. descend (newNode k) s = Some m \<and> terminal m)"
  by (cases s) (simp_all add: newNode_def)

lemma built_terminal: "descend (built cs) s = Some m \<Longrightarrow> terminal m \<longleftrightarrow> s \<in> set cs"
  using terminal_at_foldl[of "newNode []" cs s] newNode_not_terminal_at[of "[]" s]
  by (auto simp: built_def)

lemma built_path: "descend (built cs) s \<noteq> None \<longleftrightarrow> s = [] \<or> (\<exists>t \<in> set cs. prefix s t)"
  using path_foldl[of "newNode []" cs s]
  by (auto simp: built_def descend_newNode)

lemma built_no_child:
  "descend (built cs) s = Some m \<Longrightarrow>
   getChild (children m) [x] = None \<longleftrightarrow> \<not> (\<exists>t \<in> set cs. prefix (s @ [x]) t)"
  using built_path[of cs "s @ [x]"]
  by (auto simp: descend_append split: option.splits)

lemma built_leaf:
  assumes "descend (built cs) s = Some m"
  shows "children m = [] \<longleftrightarrow> \<not> (\<exists>t \<in> set cs. strict_prefix s t)"
proof
  assume empty: "children m = []"
  show "\<not> (\<exists>t \<in> set cs. strict_prefix s t)"
  proof
    assume "\<exists>t \<in> set cs. strict_prefix s t"
    then obtain t r where t: "t \<in> set cs" "t = s @ r" "r \<noteq> []"
      by (auto simp: strict_prefix_def prefix_def)
    then obtain x r' where "r = x # r'" by (cases r) auto
    with t have "\<exists>t \<in> set cs. prefix (s @ [x]) t" by (auto simp: prefix_def)
    then have "getChild (children m) [x] \<noteq> None" using built_no_child[OF assms, of x] by auto
    with empty show False by simp
  qed
next
  assume none: "\<not> (\<exists>t \<in> set cs. strict_prefix s t)"
  show "children m = []"
  proof (rule ccontr)
    assume "children m \<noteq> []"
    then obtain ch where ch: "ch \<in> set (children m)" by (cases "children m") auto
    have "wf_node m" using wf_descend[OF wf_built assms] .
    with ch obtain x where x: "c ch = [x]" using wf_node_iff[of m] by blast
    have "c ch \<in> set (getCharacters (children m))"
      using ch by (simp add: getCharacters_def)
    then have "getChild (children m) [x] \<noteq> None"
      using x by (simp add: getChild_None_iff)
    then obtain t where "t \<in> set cs" "prefix (s @ [x]) t" using built_no_child[OF assms, of x] by auto
    then have "strict_prefix s t" by (auto simp: strict_prefix_def prefix_def)
    with none \<open>t \<in> set cs\<close> show False by blast
  qed
qed

subsection \<open>The initialized tree\<close>

lemma getCommand_initialize:
  "tree_getCommand (tree_initialize tree_new cs) q = searchCommand (updateMaxDescendants (built cs)) q"
  by (simp add: tree_getCommand_def root_initialize)

lemma init_descend:
  "descend (updateMaxDescendants (built cs)) s = Some m' \<Longrightarrow>
   \<exists>m. descend (built cs) s = Some m \<and> m' = updateMaxDescendants m"
  by (auto simp: descend_uMD)

lemma init_terminal:
  "descend (updateMaxDescendants (built cs)) s = Some m' \<Longrightarrow> terminal m' \<longleftrightarrow> s \<in> set cs"
  using built_terminal[of cs s] by (auto dest!: init_descend)

lemma init_path:
  "descend (updateMaxDescendants (built cs)) s \<noteq> None \<longleftrightarrow> s = [] \<or> (\<exists>t \<in> set cs. prefix s t)"
  using built_path[of cs s] by (simp add: descend_uMD)

lemma init_no_child:
  "descend (updateMaxDescendants (built cs)) s = Some m' \<Longrightarrow>
   getChild (children m') [x] = None \<longleftrightarrow> \<not> (\<exists>t \<in> set cs. prefix (s @ [x]) t)"
  using built_no_child[of cs s _ x] by (auto dest!: init_descend simp: getChild_map_uMD)

lemma init_leaf:
  "descend (updateMaxDescendants (built cs)) s = Some m' \<Longrightarrow>
   children m' = [] \<longleftrightarrow> \<not> (\<exists>t \<in> set cs. strict_prefix s t)"
  using built_leaf[of cs s] by (auto dest!: init_descend)

lemma init_chain:
  "descend (updateMaxDescendants (built cs)) s = Some m' \<Longrightarrow> maxdescendants m' \<le> 1 \<Longrightarrow> chain m'"
  using chain_uMD by (auto dest!: init_descend)

lemma init_search_empty:
  "descend (updateMaxDescendants (built cs)) s = Some m' \<Longrightarrow> s \<notin> set cs \<Longrightarrow>
   searchCommand m' [] = (if maxdescendants m' = 1 then followTrail m' else None)"
  using init_terminal[of cs s m'] by simp

text \<open>A registered command below an unregistered prefix, with a further command below it:
  the empty continuation at the prefix fails.\<close>

lemma init_stop_or_continue:
  assumes P: "descend (updateMaxDescendants (built cs)) P = Some m'" "P \<notin> set cs"
    and D: "P @ u \<in> set cs" "P @ u @ v \<in> set cs" "v \<noteq> []"
  shows "searchCommand (updateMaxDescendants (built cs)) P = None"
proof -
  let ?R = "updateMaxDescendants (built cs)"
  have "searchCommand m' [] = None"
  proof (cases "maxdescendants m' = 1")
    case False
    then show ?thesis using init_search_empty[OF P] by simp
  next
    case True
    then have ch: "chain m'" using init_chain[OF P(1)] by simp
    have "descend ?R (P @ u) \<noteq> None" using init_path[of cs "P @ u"] D(1) by auto
    then obtain mu where mu: "descend ?R (P @ u) = Some mu" by blast
    then have mu': "descend m' u = Some mu" using P(1) by (simp add: descend_append)
    have "terminal mu" using init_terminal[OF mu] D(1) by simp
    moreover have "children mu \<noteq> []"
      using init_leaf[OF mu] D(2,3) by (auto simp: strict_prefix_def)
    ultimately have "followTrail m' = None" using followTrail_ambiguous[OF ch mu'] by blast
    then show ?thesis using init_search_empty[OF P] by simp
  qed
  then show ?thesis using searchCommand_descend_None[OF P(1), of "[]"] by simp
qed

lemma init_two_below:
  assumes P: "descend (updateMaxDescendants (built cs)) P = Some m'" "P \<notin> set cs"
    and D: "P @ u \<in> set cs" "P @ v \<in> set cs" "u \<noteq> v"
  shows "searchCommand (updateMaxDescendants (built cs)) P = None"
proof (cases "prefix u v \<or> prefix v u")
  case True
  then consider w where "v = u @ w" "w \<noteq> []" | w where "u = v @ w" "w \<noteq> []"
    using D(3) by (auto simp: prefix_def)
  then show ?thesis
  proof cases
    case 1
    then show ?thesis using init_stop_or_continue[OF P D(1), of w] D(2) by simp
  next
    case 2
    then show ?thesis using init_stop_or_continue[OF P D(2), of w] D(1) by simp
  qed
next
  case False
  let ?R = "updateMaxDescendants (built cs)"
  have "descend ?R (P @ u) \<noteq> None" "descend ?R (P @ v) \<noteq> None"
    using init_path[of cs "P @ u"] init_path[of cs "P @ v"] D(1,2) by auto
  then have paths: "descend m' u \<noteq> None" "descend m' v \<noteq> None"
    using P(1) by (simp_all add: descend_append)
  have "maxdescendants m' \<noteq> 1"
  proof
    assume "maxdescendants m' = 1"
    then have "chain m'" using init_chain[OF P(1)] by simp
    then show False using chain_paths_comparable[OF _ paths] False by blast
  qed
  then have "searchCommand m' [] = None" using init_search_empty[OF P] by simp
  then show ?thesis using searchCommand_descend_None[OF P(1), of "[]"] by simp
qed

text \<open>A tree holding a single command.\<close>

lemma addCommand_newNode_Cons:
  "addCommand (newNode k) (x # xs) = Node k [addCommand (newNode [x]) xs] False 0"
  by (simp add: addCommand.simps(2) newNode_def addChild_def getCharacters_def)

lemma single_command_trail:
  "maxdescendants (updateMaxDescendants (addCommand (newNode k) xs)) = (if xs = [] then 0 else 1) \<and>
   followTrail (updateMaxDescendants (addCommand (newNode k) xs)) = Some (k @ xs)"
proof (induction xs arbitrary: k)
  case Nil
  show ?case by (simp add: newNode_def updateMaxDescendants.simps)
next
  case (Cons x xs)
  let ?ch = "updateMaxDescendants (addCommand (newNode [x]) xs)"
  have md: "maxdescendants ?ch \<le> 1" and ft: "followTrail ?ch = Some ([x] @ xs)"
    using Cons.IH[of "[x]"] by (simp_all split: if_splits)
  have "updateMaxDescendants (addCommand (newNode k) (x # xs)) =
          Node k [?ch] False (max 1 (max 0 (maxdescendants ?ch)))"
    by (simp add: addCommand_newNode_Cons updateMaxDescendants.simps Let_def)
  then show ?case using md ft by (simp add: max_def)
qed

lemma updateChild_twice:
  "(\<And>z. c (g z) = c z) \<Longrightarrow> updateChild g k (updateChild g k cs) = updateChild (\<lambda>z. g (g z)) k cs"
  by (induction cs) auto

lemma addCommand_Cons_node:
  "addCommand n (x # xs) =
     Node (c n) (children (addCommand n (x # xs))) (terminal n) (maxdescendants n)"
  by (simp add: addCommand.simps(2) Let_def)

lemma maxdescendants_addCommand [simp]: "maxdescendants (addCommand n s) = maxdescendants n"
  by (cases s) (simp_all add: addCommand.simps(2) Let_def)

lemma addCommand_idem: "addCommand (addCommand n s) s = addCommand n s"
proof (induction s arbitrary: n)
  case Nil
  show ?case by simp
next
  case (Cons x xs)
  let ?g = "\<lambda>z. addCommand z xs"
  let ?n1 = "addCommand n (x # xs)"
  have found: "getChild (children ?n1) [x] \<noteq> None" by (simp add: getChild_addCommand)
  then have ch2: "children (addCommand ?n1 (x # xs)) = updateChild ?g [x] (children ?n1)"
    by (auto simp: children_addCommand_Cons)
  have "updateChild ?g [x] (children ?n1) = children ?n1"
  proof (cases "getChild (children n) [x]")
    case None
    then show ?thesis
      using Cons.IH[of "newNode [x]"]
      by (simp add: children_addCommand_Cons updateChild_append)
  next
    case (Some ch)
    then show ?thesis
      using Cons.IH updateChild_twice[of ?g "[x]" "children n"]
      by (simp add: children_addCommand_Cons)
  qed
  with ch2 have "children (addCommand ?n1 (x # xs)) = children ?n1" by simp
  then have "addCommand ?n1 (x # xs) = Node (c ?n1) (children ?n1) (terminal ?n1) (maxdescendants ?n1)"
    using addCommand_Cons_node[of ?n1 x xs] by simp
  then show ?case using addCommand_Cons_node[of n x xs] by simp
qed

lemma foldl_addCommand_same:
  "set cs = {C} \<Longrightarrow> foldl addCommand n cs = addCommand n C"
proof (induction cs arbitrary: n)
  case Nil
  then show ?case by simp
next
  case (Cons t ts)
  then have t: "t = C" by auto
  show ?case
  proof (cases "ts = []")
    case True
    then show ?thesis using t by simp
  next
    case False
    then have "set ts = {C}" using Cons.prems by (cases ts) auto
    then show ?thesis using Cons.IH[of "addCommand n C"] t by (simp add: addCommand_idem)
  qed
qed

lemma init_single:
  assumes "set cs = {C}" "C \<noteq> []"
  shows "searchCommand (updateMaxDescendants (built cs)) [] = Some C"
proof -
  have b: "built cs = addCommand (newNode []) C"
    using assms(1) by (simp add: built_def foldl_addCommand_same)
  have "\<not> terminal (updateMaxDescendants (built cs))"
    using assms(2) by (simp add: b newNode_def)
  then show ?thesis
    using single_command_trail[of "[]" C] assms(2) by (simp add: b)
qed

lemma init_empty: "searchCommand (updateMaxDescendants (built [])) [] = None"
  by (simp add: built_def newNode_def updateMaxDescendants.simps)

subsection \<open>Upper-casing\<close>

text \<open>
  When no code point of an upper-case mapping has a mapping itself, upper-casing an
  upper-cased string changes nothing.
\<close>

lemma upper_fixed:
  "\<forall>m \<in> set r. upcase m = None \<Longrightarrow> upper upcase r = r"
  by (induction r) (simp_all add: upper_def)

lemma upper_append: "upper upcase (s @ t) = upper upcase s @ upper upcase t"
  by (simp add: upper_def)

lemma upper_idem:
  assumes "\<forall>n r. upcase n = Some r \<longrightarrow> (\<forall>m \<in> set r. upcase m = None)"
  shows "upper upcase (upper upcase s) = upper upcase s"
proof (induction s)
  case Nil
  show ?case by (simp add: upper_def)
next
  case (Cons n s)
  have step: "upper upcase (n # s) = (case upcase n of None \<Rightarrow> [n] | Some r \<Rightarrow> r) @ upper upcase s"
    by (simp add: upper_def)
  have "upper upcase (case upcase n of None \<Rightarrow> [n] | Some r \<Rightarrow> r) =
          (case upcase n of None \<Rightarrow> [n] | Some r \<Rightarrow> r)"
  proof (cases "upcase n")
    case None
    then show ?thesis by (simp add: upper_def)
  next
    case (Some r)
    then show ?thesis using assms upper_fixed[of r upcase] by simp
  qed
  then show ?case using Cons.IH by (simp add: step upper_append)
qed

lemma map_of_update_same: "map_of (AList.update k v al) k = Some v"
  by (simp add: update_conv')

section \<open>The claims\<close>

text \<open>
  Throughout, \<open>tree_initialize tree_new cs\<close> is the tree that
  \<^verbatim>\<open>YasperCommandTree.initialize\<close> builds from the command list \<open>cs\<close>, and
  \<open>tree_getCommand\<close> is \<^verbatim>\<open>YasperCommandTree.getCommand\<close>. A failed resolution is
  the result \<^const>\<open>None\<close>. The theorems about the tree hold for strings over any
  type of characters; their concrete instances are written with string literals.
\<close>

text \<open>
  \<^bold>\<open>C1\<close>. Every command the tree was initialized with resolves to itself:
  \<^verbatim>\<open>getCommand(C)\<close> returns \<open>C\<close> for every \<open>C\<close> of the command list, whatever else
  is registered, also when \<open>C\<close> is a proper prefix of another registered command.
\<close>

theorem exact_command_resolves:
  "C \<in> set cs \<Longrightarrow> tree_getCommand (tree_initialize tree_new cs) C = Some C"
proof -
  assume reg: "C \<in> set cs"
  let ?R = "updateMaxDescendants (built cs)"
  have "descend ?R C \<noteq> None" using init_path[of cs C] reg by auto
  then obtain m where m: "descend ?R C = Some m" by blast
  have "terminal m" using init_terminal[OF m] reg by simp
  then have "searchCommand ?R C = Some (c ?R @ C)" using searchCommand_exact[OF m] by blast
  then show ?thesis by (simp add: getCommand_initialize)
qed

theorem exact_command_resolves_witness:
  "''ADD'' \<in> set [''ADD'', ''ADDN'', ''SUBTRACT'', ''ENCOURAGE''] \<and>
   tree_getCommand (tree_initialize tree_new [''ADD'', ''ADDN'', ''SUBTRACT'', ''ENCOURAGE'']) ''ADD''
     = Some ''ADD''"
proof -
  have h: "''ADD'' \<in> set [''ADD'', ''ADDN'', ''SUBTRACT'', ''ENCOURAGE'']" by simp
  show ?thesis using h exact_command_resolves[OF h] by simp
qed

text \<open>
  \<^bold>\<open>C2\<close>, as amended. When both \<open>C\<close> and a strict extension \<open>C @ s\<close> are registered,
  the query \<open>C\<close> resolves to \<open>C\<close> itself. The stop-here-or-continue failure is that of
  the unregistered strict prefixes \<open>P\<close> of \<open>C\<close>: each of them fails to resolve.
\<close>

theorem prefix_command_resolves_to_itself:
  assumes "C \<in> set cs" and "C @ s \<in> set cs" and "s \<noteq> []"
  shows "tree_getCommand (tree_initialize tree_new cs) C = Some C \<and>
         (\<forall>P. strict_prefix P C \<and> P \<notin> set cs \<longrightarrow>
              tree_getCommand (tree_initialize tree_new cs) P = None)"
proof (intro conjI allI impI)
  let ?R = "updateMaxDescendants (built cs)"
  have "descend ?R C \<noteq> None" using init_path[of cs C] assms(1) by auto
  then obtain m where m: "descend ?R C = Some m" by blast
  have "terminal m" using init_terminal[OF m] assms(1) by simp
  then have "searchCommand ?R C = Some (c ?R @ C)" using searchCommand_exact[OF m] by blast
  then show "tree_getCommand (tree_initialize tree_new cs) C = Some C"
    by (simp add: getCommand_initialize)
next
  fix P
  let ?R = "updateMaxDescendants (built cs)"
  assume "strict_prefix P C \<and> P \<notin> set cs"
  then obtain u where u: "C = P @ u" and unreg: "P \<notin> set cs"
    by (auto simp: strict_prefix_def prefix_def)
  have "prefix P C" using u by simp
  then have "descend ?R P \<noteq> None" using init_path[of cs P] assms(1) by blast
  then obtain m where m: "descend ?R P = Some m" by blast
  have "searchCommand ?R P = None"
    using init_stop_or_continue[OF m unreg, of u s] assms u by simp
  then show "tree_getCommand (tree_initialize tree_new cs) P = None"
    by (simp add: getCommand_initialize)
qed

theorem prefix_command_resolves_to_itself_witness:
  "''AB'' \<in> set [''AB'', ''ABC''] \<and> ''AB'' @ ''C'' \<in> set [''AB'', ''ABC''] \<and> ''C'' \<noteq> [] \<and>
   tree_getCommand (tree_initialize tree_new [''AB'', ''ABC'']) ''AB'' = Some ''AB'' \<and>
   strict_prefix ''A'' ''AB'' \<and> ''A'' \<notin> set [''AB'', ''ABC''] \<and>
   tree_getCommand (tree_initialize tree_new [''AB'', ''ABC'']) ''A'' = None"
proof -
  have h1: "''AB'' \<in> set [''AB'', ''ABC'']" by simp
  have h2: "''AB'' @ ''C'' \<in> set [''AB'', ''ABC'']" by simp
  have h3: "''C'' \<noteq> []" by simp
  have h4: "strict_prefix ''A'' ''AB'' \<and> ''A'' \<notin> set [''AB'', ''ABC'']" by (simp add: strict_prefix_def)
  show ?thesis using h1 h2 h3 h4 prefix_command_resolves_to_itself[OF h1 h2 h3] by blast
qed

text \<open>
  The claim as stated, that the query \<open>C\<close> fails here, does not hold: with \<^verbatim>\<open>ADD\<close>
  and \<^verbatim>\<open>ADDN\<close> registered, \<^verbatim>\<open>ADD\<close> resolves.
\<close>

theorem prefix_command_counterexample:
  "''ADD'' \<in> set [''ADD'', ''ADDN''] \<and> ''ADD'' @ ''N'' \<in> set [''ADD'', ''ADDN''] \<and>
   tree_getCommand (tree_initialize tree_new [''ADD'', ''ADDN'']) ''ADD'' \<noteq> None"
  by code_simp

text \<open>
  \<^bold>\<open>C3\<close>. Overcompletion: for a registered command \<open>C\<close> and extra characters
  \<open>x # X\<close> such that no registered command starts with \<open>C @ [x]\<close>, the query
  \<open>C @ x # X\<close> resolves to \<open>C\<close>; the extra characters are discarded.
\<close>

theorem overcompletion_resolves:
  assumes "C \<in> set cs" and "\<forall>t \<in> set cs. \<not> prefix (C @ [x]) t"
  shows "tree_getCommand (tree_initialize tree_new cs) (C @ x # X) = Some C"
proof -
  let ?R = "updateMaxDescendants (built cs)"
  have "descend ?R C \<noteq> None" using init_path[of cs C] assms(1) by auto
  then obtain m where m: "descend ?R C = Some m" by blast
  have "terminal m" using init_terminal[OF m] assms(1) by simp
  moreover have "getChild (children m) [x] = None" using init_no_child[OF m, of x] assms(2) by simp
  ultimately have "searchCommand ?R (C @ x # X) = Some (c ?R @ C)"
    using searchCommand_over[OF m] by blast
  then show ?thesis by (simp add: getCommand_initialize)
qed

theorem overcompletion_resolves_witness:
  "''ADD'' \<in> set [''ADD'', ''ADDN'', ''SUBTRACT'', ''ENCOURAGE''] \<and>
   \<not> (\<exists>t \<in> set [''ADD'', ''ADDN'', ''SUBTRACT'', ''ENCOURAGE'']. prefix (''ADD'' @ ''Q'') t) \<and>
   tree_getCommand (tree_initialize tree_new [''ADD'', ''ADDN'', ''SUBTRACT'', ''ENCOURAGE''])
     (''ADD'' @ CHR ''Q'' # ''WERTY'') = Some ''ADD''"
proof -
  have h1: "''ADD'' \<in> set [''ADD'', ''ADDN'', ''SUBTRACT'', ''ENCOURAGE'']" by simp
  have h2: "\<forall>t \<in> set [''ADD'', ''ADDN'', ''SUBTRACT'', ''ENCOURAGE'']. \<not> prefix (''ADD'' @ [CHR ''Q'']) t"
    by simp
  show ?thesis using h1 h2 overcompletion_resolves[OF h1 h2, of "''WERTY''"] by simp
qed

text \<open>
  \<^bold>\<open>C4\<close>, as amended. Undercompletion: let \<open>C\<close> be registered with no registered
  command strictly extending it, and let \<open>P\<close> be a strict prefix of \<open>C\<close> whose node has
  \<open>maxdescendants = 1\<close>. If moreover no registered command lies between \<open>P\<close> and
  \<open>C\<close> (none has \<open>P\<close> as a prefix and is a strict prefix of \<open>C\<close>; in particular
  \<open>P\<close> is not registered), then \<open>P\<close> resolves to \<open>C\<close>.
\<close>

theorem undercompletion_resolves:
  assumes "C \<in> set cs" and "strict_prefix P C"
    and "map_option maxdescendants (descend (root (tree_initialize tree_new cs)) P) = Some 1"
    and "\<forall>D \<in> set cs. \<not> strict_prefix C D"
    and "\<forall>D \<in> set cs. prefix P D \<longrightarrow> \<not> strict_prefix D C"
  shows "tree_getCommand (tree_initialize tree_new cs) P = Some C"
proof -
  let ?R = "updateMaxDescendants (built cs)"
  from assms(3) obtain m where m: "descend ?R P = Some m" and md: "maxdescendants m = 1"
    by (auto simp: root_initialize)
  from assms(2) obtain u where u: "C = P @ u" "u \<noteq> []"
    by (auto simp: strict_prefix_def prefix_def)
  have ch: "chain m" using init_chain[OF m] md by simp
  have "descend ?R C \<noteq> None" using init_path[of cs C] assms(1) by auto
  then obtain mc where mc: "descend ?R (P @ u) = Some mc" using u by auto
  then have mc': "descend m u = Some mc" using m by (simp add: descend_append)
  have leaf: "children mc = []" using init_leaf[OF mc] assms(4) u by simp
  have inner: "\<not> terminal mv" if "strict_prefix v u" "descend m v = Some mv" for v mv
  proof -
    have "descend ?R (P @ v) = Some mv" using that(2) m by (simp add: descend_append)
    moreover have "P @ v \<notin> set cs"
      using assms(5) that(1) u by (auto simp: strict_prefix_def)
    ultimately show ?thesis using init_terminal by blast
  qed
  have "followTrail m = Some (c m @ u)"
    using followTrail_complete[OF ch mc' leaf] inner by blast
  moreover have "P \<notin> set cs" using assms(5,2) by auto
  ultimately have "searchCommand m [] = Some (c m @ u)"
    using init_search_empty[OF m] md by simp
  then have "searchCommand ?R (P @ []) = Some (c ?R @ P @ u)"
    by (rule searchCommand_descend_Some[OF m])
  then show ?thesis using u by (simp add: getCommand_initialize)
qed

theorem undercompletion_resolves_witness:
  "''SUBTRACT'' \<in> set [''ADD'', ''ADDN'', ''SUBTRACT'', ''ENCOURAGE''] \<and> strict_prefix ''S'' ''SUBTRACT'' \<and>
   map_option maxdescendants
     (descend (root (tree_initialize tree_new [''ADD'', ''ADDN'', ''SUBTRACT'', ''ENCOURAGE''])) ''S'') = Some 1 \<and>
   \<not> (\<exists>D \<in> set [''ADD'', ''ADDN'', ''SUBTRACT'', ''ENCOURAGE'']. strict_prefix ''SUBTRACT'' D) \<and>
   \<not> (\<exists>D \<in> set [''ADD'', ''ADDN'', ''SUBTRACT'', ''ENCOURAGE'']. prefix ''S'' D \<and> strict_prefix D ''SUBTRACT'') \<and>
   tree_getCommand (tree_initialize tree_new [''ADD'', ''ADDN'', ''SUBTRACT'', ''ENCOURAGE'']) ''S''
     = Some ''SUBTRACT''"
proof -
  let ?cs = "[''ADD'', ''ADDN'', ''SUBTRACT'', ''ENCOURAGE'']"
  have h1: "''SUBTRACT'' \<in> set ?cs" by simp
  have h2: "strict_prefix ''S'' ''SUBTRACT''" by (simp add: strict_prefix_def)
  have h3: "map_option maxdescendants (descend (root (tree_initialize tree_new ?cs)) ''S'') = Some 1"
    by code_simp
  have h4: "\<forall>D \<in> set ?cs. \<not> strict_prefix ''SUBTRACT'' D" by (simp add: strict_prefix_def)
  have h5: "\<forall>D \<in> set ?cs. prefix ''S'' D \<longrightarrow> \<not> strict_prefix D ''SUBTRACT''"
    by (simp add: strict_prefix_def)
  show ?thesis using h1 h2 h3 h4 h5 undercompletion_resolves[OF h1 h2 h3 h4 h5] by simp
qed

text \<open>
  Without the added condition the claim fails: with \<^verbatim>\<open>AB\<close> and \<^verbatim>\<open>ABC\<close>
  registered, nothing extends \<^verbatim>\<open>ABC\<close>, the node of \<^verbatim>\<open>A\<close> (and the root) has
  \<open>maxdescendants = 1\<close>, and yet \<^verbatim>\<open>A\<close> does not resolve to \<^verbatim>\<open>ABC\<close>:
  \<open>followTrail\<close> stops at the terminal node of \<^verbatim>\<open>AB\<close>.
\<close>

theorem undercompletion_counterexample:
  "''ABC'' \<in> set [''AB'', ''ABC''] \<and> \<not> (\<exists>D \<in> set [''AB'', ''ABC'']. D \<noteq> ''ABC'' \<and> prefix ''ABC'' D) \<and>
   ''A'' \<noteq> [] \<and> strict_prefix ''A'' ''ABC'' \<and>
   map_option maxdescendants (descend (root (tree_initialize tree_new [''AB'', ''ABC''])) ''A'') = Some 1 \<and>
   maxdescendants (root (tree_initialize tree_new [''AB'', ''ABC''])) = 1 \<and>
   tree_getCommand (tree_initialize tree_new [''AB'', ''ABC'']) ''A'' \<noteq> Some ''ABC''"
proof -
  have "''ABC'' \<in> set [''AB'', ''ABC''] \<and> \<not> (\<exists>D \<in> set [''AB'', ''ABC'']. D \<noteq> ''ABC'' \<and> prefix ''ABC'' D) \<and>
   ''A'' \<noteq> [] \<and> strict_prefix ''A'' ''ABC''" by (simp add: strict_prefix_def)
  moreover have "map_option maxdescendants (descend (root (tree_initialize tree_new [''AB'', ''ABC''])) ''A'') = Some 1 \<and>
   maxdescendants (root (tree_initialize tree_new [''AB'', ''ABC''])) = 1 \<and>
   tree_getCommand (tree_initialize tree_new [''AB'', ''ABC'']) ''A'' \<noteq> Some ''ABC''" by code_simp
  ultimately show ?thesis by blast
qed

text \<open>
  \<^bold>\<open>C5\<close>, as amended. If two distinct registered commands share the prefix \<open>P\<close>
  and \<open>P\<close> is not itself a registered command, then the query \<open>P\<close> fails. (As \<open>P\<close>
  is not registered, it is strictly shorter than both commands.)
\<close>

theorem shared_prefix_fails:
  assumes "D1 \<in> set cs" and "D2 \<in> set cs" and "D1 \<noteq> D2"
    and "prefix P D1" and "prefix P D2" and "P \<notin> set cs"
  shows "tree_getCommand (tree_initialize tree_new cs) P = None"
proof -
  let ?R = "updateMaxDescendants (built cs)"
  from assms(4,5) obtain u v where uv: "D1 = P @ u" "D2 = P @ v" by (auto simp: prefix_def)
  have "descend ?R P \<noteq> None" using init_path[of cs P] assms(1,4) by auto
  then obtain m where m: "descend ?R P = Some m" by blast
  have "searchCommand ?R P = None"
    using init_two_below[OF m assms(6), of u v] assms(1,2,3) uv by simp
  then show ?thesis by (simp add: getCommand_initialize)
qed

theorem shared_prefix_fails_witness:
  "''ADD'' \<in> set [''ADD'', ''ADDN'', ''SUBTRACT'', ''ENCOURAGE''] \<and>
   ''ADDN'' \<in> set [''ADD'', ''ADDN'', ''SUBTRACT'', ''ENCOURAGE''] \<and> ''ADD'' \<noteq> ''ADDN'' \<and>
   prefix ''AD'' ''ADD'' \<and> prefix ''AD'' ''ADDN'' \<and>
   ''AD'' \<notin> set [''ADD'', ''ADDN'', ''SUBTRACT'', ''ENCOURAGE''] \<and>
   tree_getCommand (tree_initialize tree_new [''ADD'', ''ADDN'', ''SUBTRACT'', ''ENCOURAGE'']) ''AD'' = None"
proof -
  let ?cs = "[''ADD'', ''ADDN'', ''SUBTRACT'', ''ENCOURAGE'']"
  have h1: "''ADD'' \<in> set ?cs" and h2: "''ADDN'' \<in> set ?cs" and h3: "''ADD'' \<noteq> ''ADDN''"
    and h4: "prefix ''AD'' ''ADD''" and h5: "prefix ''AD'' ''ADDN''" and h6: "''AD'' \<notin> set ?cs"
    by simp_all
  show ?thesis using h1 h2 h3 h4 h5 h6 shared_prefix_fails[OF h1 h2 h3 h4 h5 h6] by simp
qed

text \<open>
  When \<open>P\<close> is itself registered the claim as stated fails: with \<^verbatim>\<open>A\<close>,
  \<^verbatim>\<open>AB\<close> and \<^verbatim>\<open>AC\<close> registered, \<^verbatim>\<open>A\<close> is a shorter common prefix of
  \<^verbatim>\<open>AB\<close> and \<^verbatim>\<open>AC\<close> and resolves to \<^verbatim>\<open>A\<close>.
\<close>

theorem shared_prefix_counterexample:
  "''AB'' \<in> set [''A'', ''AB'', ''AC''] \<and> ''AC'' \<in> set [''A'', ''AB'', ''AC''] \<and> ''AB'' \<noteq> ''AC'' \<and>
   prefix ''A'' ''AB'' \<and> prefix ''A'' ''AC'' \<and> length ''A'' < length ''AB'' \<and> length ''A'' < length ''AC'' \<and>
   tree_getCommand (tree_initialize tree_new [''A'', ''AB'', ''AC'']) ''A'' = Some ''A''"
proof -
  have "tree_getCommand (tree_initialize tree_new [''A'', ''AB'', ''AC'']) ''A'' = Some ''A''"
    by code_simp
  then show ?thesis by simp
qed

text \<open>
  \<^bold>\<open>C6\<close>, as amended. When the empty string is not registered, the empty query fails
  unless exactly one command is registered; with a single registered command the empty
  query is undercompleted to that command.
\<close>

theorem empty_query_resolution:
  assumes "[] \<notin> set cs"
  shows "tree_getCommand (tree_initialize tree_new cs) [] =
           (if \<exists>C. set cs = {C} then Some (hd cs) else None)"
proof (cases "\<exists>C. set cs = {C}")
  case True
  then obtain C where C: "set cs = {C}" by blast
  then have "hd cs = C" by (cases cs) auto
  moreover have "C \<noteq> []" using assms C by auto
  ultimately show ?thesis using True init_single[OF C] by (simp add: getCommand_initialize)
next
  case False
  have "searchCommand (updateMaxDescendants (built cs)) [] = None"
  proof (cases cs)
    case Nil
    then show ?thesis using init_empty by simp
  next
    case (Cons t ts)
    with False obtain t' where t': "t' \<in> set cs" "t' \<noteq> t" by auto
    have "descend (updateMaxDescendants (built cs)) [] = Some (updateMaxDescendants (built cs))" by simp
    from init_two_below[OF this assms, of t t'] t' Cons show ?thesis by simp
  qed
  with False show ?thesis by (simp add: getCommand_initialize)
qed

theorem empty_query_resolution_witness:
  "[] \<notin> set [''ADD'', ''ADDN'', ''SUBTRACT'', ''ENCOURAGE''] \<and>
   tree_getCommand (tree_initialize tree_new [''ADD'', ''ADDN'', ''SUBTRACT'', ''ENCOURAGE'']) [] = None"
proof -
  have h: "[] \<notin> set [''ADD'', ''ADDN'', ''SUBTRACT'', ''ENCOURAGE'']" by simp
  have "\<not> (\<exists>C. set [''ADD'', ''ADDN'', ''SUBTRACT'', ''ENCOURAGE''] = {C})" by auto
  then show ?thesis using h empty_query_resolution[OF h] by simp
qed

text \<open>
  The claim as stated fails for a single command: with only \<^verbatim>\<open>SUBTRACT\<close>
  registered, the empty query resolves to it.
\<close>

theorem empty_query_counterexample:
  "[] \<notin> set [''SUBTRACT''] \<and>
   tree_getCommand (tree_initialize tree_new [''SUBTRACT'']) [] = Some ''SUBTRACT''"
proof -
  have "tree_getCommand (tree_initialize tree_new [''SUBTRACT'']) [] = Some ''SUBTRACT''"
    by code_simp
  then show ?thesis by simp
qed

text \<open>
  \<^bold>\<open>C7\<close>. Commands are stored under their upper-cased name, and \<^verbatim>\<open>execute\<close>
  upper-cases the first word of the line before the tree is walked. No code point of an
  upper-case mapping has a mapping itself (a property of the Unicode database, the
  hypothesis on \<open>upcase\<close>); so for every query \<open>q\<close>, resolving the upper-cased \<open>q\<close>
  is resolving \<open>q\<close>, and a line whose first word is the upper-cased \<open>w\<close> executes as
  the line whose first word is \<open>w\<close>, the other words being the same.
\<close>

theorem resolution_case_insensitive:
  assumes "\<forall>n r. upcase n = Some r \<longrightarrow> (\<forall>m \<in> set r. upcase m = None)"
  shows "map_of (fdict (yasper_registerFunction upcase y s fn n)) (upper upcase s)
           = Some (YasperFunction fn n) \<and>
         yasper_getCommand y (upper upcase (upper upcase q)) = yasper_getCommand y (upper upcase q) \<and>
         (split l1 = w # args \<and> split l2 = upper upcase w # args \<longrightarrow>
            yasper_execute upcase y l2 = yasper_execute upcase y l1)"
proof (intro conjI impI)
  show "map_of (fdict (yasper_registerFunction upcase y s fn n)) (upper upcase s)
          = Some (YasperFunction fn n)"
    by (simp add: yasper_registerFunction_def map_of_update_same)
  show "yasper_getCommand y (upper upcase (upper upcase q)) = yasper_getCommand y (upper upcase q)"
    by (simp add: upper_idem[OF assms])
next
  assume h: "split l1 = w # args \<and> split l2 = upper upcase w # args"
  then have "l1 \<noteq> []" "l2 \<noteq> []" by auto
  then show "yasper_execute upcase y l2 = yasper_execute upcase y l1"
    using h by (simp add: yasper_execute_def upper_idem[OF assms])
qed

theorem resolution_case_insensitive_witness:
  "\<not> (\<exists>n r. ascii_upcase n = Some r \<and> (\<exists>m \<in> set r. ascii_upcase m \<noteq> None)) \<and>
   upper ascii_upcase (lit ''aDd'') = lit ''ADD'' \<and>
   split (lit ''aDd 2 4 6 8'') = lit ''aDd'' # map lit [''2'', ''4'', ''6'', ''8''] \<and>
   split (lit ''ADD 2 4 6 8'') = upper ascii_upcase (lit ''aDd'') # map lit [''2'', ''4'', ''6'', ''8''] \<and>
   yasper_execute ascii_upcase (driver ascii_upcase length length length length) (lit ''ADD 2 4 6 8'')
     = Inr ([], Some 4) \<and>
   yasper_execute ascii_upcase (driver ascii_upcase length length length length) (lit ''aDd 2 4 6 8'')
     = Inr ([], Some 4)"
proof -
  have stable: "\<forall>n r. ascii_upcase n = Some r \<longrightarrow> (\<forall>m \<in> set r. ascii_upcase m = None)"
    by (auto simp: ascii_upcase_def split: if_splits)
  have u: "upper ascii_upcase (lit ''aDd'') = lit ''ADD''" by code_simp
  have s1: "split (lit ''aDd 2 4 6 8'') = lit ''aDd'' # map lit [''2'', ''4'', ''6'', ''8'']"
    by code_simp
  have s2: "split (lit ''ADD 2 4 6 8'') = upper ascii_upcase (lit ''aDd'') # map lit [''2'', ''4'', ''6'', ''8'']"
    by code_simp
  have e: "yasper_execute ascii_upcase (driver ascii_upcase length length length length)
      (lit ''aDd 2 4 6 8'') = Inr ([], Some 4)"
    by code_simp
  from resolution_case_insensitive[OF stable, of "driver ascii_upcase length length length length"
      "[]" length 0 "[]" "lit ''aDd 2 4 6 8''" "lit ''aDd''" "map lit [''2'', ''4'', ''6'', ''8'']"
      "lit ''ADD 2 4 6 8''"] s1 s2
  have "yasper_execute ascii_upcase (driver ascii_upcase length length length length) (lit ''ADD 2 4 6 8'') =
        yasper_execute ascii_upcase (driver ascii_upcase length length length length) (lit ''aDd 2 4 6 8'')"
    by blast
  with e have e2: "yasper_execute ascii_upcase (driver ascii_upcase length length length length)
      (lit ''ADD 2 4 6 8'') = Inr ([], Some 4)"
    by simp
  from stable have "\<not> (\<exists>n r. ascii_upcase n = Some r \<and> (\<exists>m \<in> set r. ascii_upcase m \<noteq> None))"
    by auto
  with u s1 s2 e e2 show ?thesis by (intro conjI)
qed

text \<open>
  \<^bold>\<open>C8\<close>, as amended. A failed resolution is the one value \<^const>\<open>None\<close>, and
  \<^verbatim>\<open>execute\<close> reports every failed resolution alike: it prints
  \<^verbatim>\<open>ERROR: Invalid or ambiguous command\<close> and returns \<^verbatim>\<open>None\<close>.
\<close>

theorem failure_reported_alike:
  assumes "split l1 = t1 # a1" and "yasper_getCommand y (upper upcase t1) = Inr None"
    and "split l2 = t2 # a2" and "yasper_getCommand y (upper upcase t2) = Inr None"
  shows "yasper_execute upcase y l1 = yasper_execute upcase y l2 \<and>
         yasper_execute upcase y l1 = Inr ([lit ''ERROR: Invalid or ambiguous command''], None)"
proof -
  have ne: "l1 \<noteq> []" "l2 \<noteq> []" using assms(1,3) by auto
  have msg: "errorprint (lit ''Invalid or ambiguous command'') = lit ''ERROR: Invalid or ambiguous command''"
    by (simp add: errorprint_def lit_def)
  have "yasper_execute upcase y l1 = Inr ([lit ''ERROR: Invalid or ambiguous command''], None)"
    using ne(1) assms(1,2) by (simp add: yasper_execute_def msg)
  moreover have "yasper_execute upcase y l2 = Inr ([lit ''ERROR: Invalid or ambiguous command''], None)"
    using ne(2) assms(3,4) by (simp add: yasper_execute_def msg)
  ultimately show ?thesis by simp
qed

theorem failure_reported_alike_witness:
  "split (lit ''ad 2 4'') = lit ''ad'' # map lit [''2'', ''4''] \<and>
   yasper_getCommand (driver ascii_upcase length length length length) (upper ascii_upcase (lit ''ad''))
     = Inr None \<and>
   split (lit ''yabusa'') = lit ''yabusa'' # [] \<and>
   yasper_getCommand (driver ascii_upcase length length length length) (upper ascii_upcase (lit ''yabusa''))
     = Inr None \<and>
   yasper_execute ascii_upcase (driver ascii_upcase length length length length) (lit ''ad 2 4'') =
     yasper_execute ascii_upcase (driver ascii_upcase length length length length) (lit ''yabusa'') \<and>
   yasper_execute ascii_upcase (driver ascii_upcase length length length length) (lit ''ad 2 4'') =
     Inr ([lit ''ERROR: Invalid or ambiguous command''], None)"
proof -
  have h1: "split (lit ''ad 2 4'') = lit ''ad'' # map lit [''2'', ''4'']" by code_simp
  have h2: "yasper_getCommand (driver ascii_upcase length length length length)
      (upper ascii_upcase (lit ''ad'')) = Inr None"
    by code_simp
  have h3: "split (lit ''yabusa'') = lit ''yabusa'' # []" by code_simp
  have h4: "yasper_getCommand (driver ascii_upcase length length length length)
      (upper ascii_upcase (lit ''yabusa'')) = Inr None"
    by code_simp
  show ?thesis using h1 h2 h3 h4 failure_reported_alike[OF h1 h2 h3 h4] by blast
qed

text \<open>
  The two kinds of failure are not told apart: in the parser of \<^verbatim>\<open>driver.py\<close>,
  \<^verbatim>\<open>AD\<close> (a prefix of two commands) and \<^verbatim>\<open>YABUSA\<close> (a prefix of none) give
  the same result of \<open>tree_getCommand\<close> and the same outcome of \<^verbatim>\<open>execute\<close>.
\<close>

theorem failure_kinds_counterexample:
  "prefix ''AD'' ''ADD'' \<and> prefix ''AD'' ''ADDN'' \<and>
   \<not> (\<exists>t \<in> set [''ADD'', ''ADDN'', ''SUBTRACT'', ''ENCOURAGE'']. prefix ''Y'' t) \<and>
   tree_getCommand (tree_initialize tree_new [''ADD'', ''ADDN'', ''SUBTRACT'', ''ENCOURAGE'']) ''AD'' =
   tree_getCommand (tree_initialize tree_new [''ADD'', ''ADDN'', ''SUBTRACT'', ''ENCOURAGE'']) ''YABUSA'' \<and>
   yasper_execute ascii_upcase (driver ascii_upcase length length length length) (lit ''ad 2 4 6 8'') =
   yasper_execute ascii_upcase (driver ascii_upcase length length length length) (lit ''yabusa'')"
proof -
  have "tree_getCommand (tree_initialize tree_new [''ADD'', ''ADDN'', ''SUBTRACT'', ''ENCOURAGE'']) ''AD'' = None"
    by code_simp
  moreover have "tree_getCommand (tree_initialize tree_new [''ADD'', ''ADDN'', ''SUBTRACT'', ''ENCOURAGE'']) ''YABUSA'' = None"
    by code_simp
  moreover have "yasper_execute ascii_upcase (driver ascii_upcase length length length length)
      (lit ''ad 2 4 6 8'') = Inr ([lit ''ERROR: Invalid or ambiguous command''], None)"
    by code_simp
  moreover have "yasper_execute ascii_upcase (driver ascii_upcase length length length length)
      (lit ''yabusa'') = Inr ([lit ''ERROR: Invalid or ambiguous command''], None)"
    by code_simp
  ultimately show ?thesis by simp
qed

text \<open>
  \<^bold>\<open>C9\<close>. Soundness: whatever \<^verbatim>\<open>getCommand\<close> returns on an initialized tree is
  one of the commands of the list the tree was initialized with.
\<close>

theorem resolution_sound:
  "tree_getCommand (tree_initialize tree_new cs) q = Some r \<Longrightarrow> r \<in> set cs"
proof -
  assume "tree_getCommand (tree_initialize tree_new cs) q = Some r"
  then have "searchCommand (updateMaxDescendants (built cs)) q = Some r"
    by (simp add: getCommand_initialize)
  then obtain u m where "r = c (built cs) @ u" "descend (built cs) u = Some m" "terminal m"
    using searchCommand_uMD_sound[OF wf_built] by blast
  then show ?thesis using built_terminal[of cs u m] by simp
qed

theorem resolution_sound_witness:
  "tree_getCommand (tree_initialize tree_new [''ADD'', ''ADDN'', ''SUBTRACT'', ''ENCOURAGE'']) ''S''
     = Some ''SUBTRACT'' \<and>
   ''SUBTRACT'' \<in> set [''ADD'', ''ADDN'', ''SUBTRACT'', ''ENCOURAGE'']"
proof -
  have h: "tree_getCommand (tree_initialize tree_new [''ADD'', ''ADDN'', ''SUBTRACT'', ''ENCOURAGE''])
      ''S'' = Some ''SUBTRACT''"
    by code_simp
  show ?thesis using h resolution_sound[OF h] by simp
qed

text \<open>
  \<^bold>\<open>C10\<close>. No backtracking: if \<open>p\<close> is a prefix of a registered command but not
  itself registered, and no registered command starts with \<open>p @ [x]\<close>, then every
  query \<open>p @ x # r\<close> fails, also when a shorter registered command is a prefix of the
  query (\<^verbatim>\<open>AB\<close> for the query \<^verbatim>\<open>ABCX\<close> in the witness).
\<close>

theorem no_backtracking_on_divergence:
  assumes "\<exists>t \<in> set cs. prefix p t" and "p \<notin> set cs" and "\<forall>t \<in> set cs. \<not> prefix (p @ [x]) t"
  shows "tree_getCommand (tree_initialize tree_new cs) (p @ x # r) = None"
proof -
  let ?R = "updateMaxDescendants (built cs)"
  have "descend ?R p \<noteq> None" using init_path[of cs p] assms(1) by auto
  then obtain m where m: "descend ?R p = Some m" by blast
  have "\<not> terminal m" using init_terminal[OF m] assms(2) by simp
  moreover have "getChild (children m) [x] = None" using init_no_child[OF m, of x] assms(3) by simp
  ultimately have "searchCommand ?R (p @ x # r) = None"
    using searchCommand_diverge[OF m] by blast
  then show ?thesis by (simp add: getCommand_initialize)
qed

theorem no_backtracking_on_divergence_witness:
  "(\<exists>t \<in> set [''AB'', ''ABCD'']. prefix ''ABC'' t) \<and> ''ABC'' \<notin> set [''AB'', ''ABCD''] \<and>
   \<not> (\<exists>t \<in> set [''AB'', ''ABCD'']. prefix (''ABC'' @ ''X'') t) \<and>
   ''AB'' \<in> set [''AB'', ''ABCD''] \<and> strict_prefix ''AB'' ''ABCX'' \<and>
   tree_getCommand (tree_initialize tree_new [''AB'', ''ABCD'']) ''ABCX'' = None"
proof -
  have h1: "\<exists>t \<in> set [''AB'', ''ABCD'']. prefix ''ABC'' t" by simp
  have h2: "''ABC'' \<notin> set [''AB'', ''ABCD'']" by simp
  have h3: "\<forall>t \<in> set [''AB'', ''ABCD'']. \<not> prefix (''ABC'' @ [CHR ''X'']) t" by simp
  show ?thesis using h1 h2 h3 no_backtracking_on_divergence[OF h1 h2 h3, of "[]"] by simp
qed

end
